theory Spec2Isabelle
  imports Complex_Main "HOL-Library.Word"
begin

section \<open>Images\<close>

text \<open>
  A pixel coordinate is the pair \<open>(row, col)\<close> of the source's \<open>tuple<int, int>\<close>.
  An image is an OpenCV \<open>Mat\<close> of \<open>uchar\<close>: its two dimensions and its pixels.
  The coordinates of an image are far below the range of a 32-bit \<open>int\<close>, so they are
  modelled by \<open>int\<close>.
\<close>

type_synonym Node = "int \<times> int"

type_synonym uchar = "8 word"

record Mat =
  rows :: int
  cols :: int
  data :: "Node \<Rightarrow> uchar"

text \<open>
  What can go wrong in the projector: \<open>Mat::at\<close> with an index outside the image
  (undefined behaviour in C++; the model stops there and reports the index), and a
  region of interest that does not fit the image (OpenCV's assertion throws).
\<close>

datatype error = OutOfBounds int int | BadROI

definition inside :: "Mat \<Rightarrow> int \<Rightarrow> int \<Rightarrow> bool" where
  "inside m i j = (0 \<le> i \<and> i < rows m \<and> 0 \<le> j \<and> j < cols m)"

text \<open>Reading \<open>m.at<uchar>(i, j)\<close>.\<close>

definition at_uchar :: "Mat \<Rightarrow> int \<Rightarrow> int \<Rightarrow> uchar" where
  "at_uchar m i j = data m (i, j)"

text \<open>The assignment \<open>m.at<uchar>(i, j) = v\<close>.\<close>

definition put :: "Mat \<Rightarrow> int \<Rightarrow> int \<Rightarrow> uchar \<Rightarrow> error + Mat" where
  "put m i j v =
     (if inside m i j then Inr (m\<lparr>data := (data m)((i, j) := v)\<rparr>)
      else Inl (OutOfBounds i j))"

lemma put_rows: "put m i j v = Inr m' \<Longrightarrow> rows m' = rows m"
  by (auto simp: put_def split: if_splits)

lemma put_cols: "put m i j v = Inr m' \<Longrightarrow> cols m' = cols m"
  by (auto simp: put_def split: if_splits)

section \<open>Painting a boundary (utils.cpp)\<close>

text \<open>
  The inner loop of \<open>segment_above_boundary\<close>:
  \<^verbatim>\<open>for (int i = row; i < input.rows; i++) {
       input.at<uchar>(i, col) = (uchar) 255;
       if (col < input.cols) { input.at<uchar>(i, col + 1) = (uchar) 255; } }\<close>
\<close>

function above_rows :: "Mat \<Rightarrow> int \<Rightarrow> int \<Rightarrow> error + Mat" where
  "above_rows input col i =
     (if i < rows input then
        (case put input i col 255 of
           Inl e \<Rightarrow> Inl e
         | Inr m1 \<Rightarrow>
             (if col < cols m1 then
                (case put m1 i (col + 1) 255 of
                   Inl e \<Rightarrow> Inl e
                 | Inr m2 \<Rightarrow> above_rows m2 col (i + 1))
              else above_rows m1 col (i + 1)))
      else Inr input)"
  by pat_completeness auto
termination
  by (relation "measure (\<lambda>(m, col, i). nat (rows m - i))")
     (auto dest!: put_rows)

declare above_rows.simps [simp del]

text \<open>
  The inner loop of \<open>segment_below_boundary\<close>:
  \<^verbatim>\<open>for (int i = row; i >= 0; i--) { ... the same two assignments ... }\<close>
\<close>

function below_rows :: "Mat \<Rightarrow> int \<Rightarrow> int \<Rightarrow> error + Mat" where
  "below_rows input col i =
     (if i \<ge> 0 then
        (case put input i col 255 of
           Inl e \<Rightarrow> Inl e
         | Inr m1 \<Rightarrow>
             (if col < cols m1 then
                (case put m1 i (col + 1) 255 of
                   Inl e \<Rightarrow> Inl e
                 | Inr m2 \<Rightarrow> below_rows m2 col (i - 1))
              else below_rows m1 col (i - 1)))
      else Inr input)"
  by pat_completeness auto
termination
  by (relation "measure (\<lambda>(m, col, i). nat (i + 1))") auto

declare below_rows.simps [simp del]

fun segment_above_boundary :: "Mat \<Rightarrow> Node list \<Rightarrow> error + Mat" where
  "segment_above_boundary input [] = Inr input"
| "segment_above_boundary input ((row, col) # boundary) =
     (case above_rows input col row of
        Inl e \<Rightarrow> Inl e
      | Inr m \<Rightarrow> segment_above_boundary m boundary)"

fun segment_below_boundary :: "Mat \<Rightarrow> Node list \<Rightarrow> error + Mat" where
  "segment_below_boundary input [] = Inr input"
| "segment_below_boundary input ((row, col) # boundary) =
     (case below_rows input col row of
        Inl e \<Rightarrow> Inl e
      | Inr m \<Rightarrow> segment_below_boundary m boundary)"

section \<open>Extreme rows of a boundary and of the ink (utils.cpp)\<close>

text \<open>
  \<open>lowest_boundary_pos\<close> declares \<open>int lowest_pos\<close> without an initial value and
  assigns it in the first iteration. The first argument of the model is whatever
  that variable holds before the loop; it is the result for an empty boundary.
\<close>

fun lowest_boundary_loop :: "nat \<Rightarrow> int \<Rightarrow> Node list \<Rightarrow> int" where
  "lowest_boundary_loop i lowest_pos [] = lowest_pos"
| "lowest_boundary_loop i lowest_pos ((row, col) # boundary) =
     lowest_boundary_loop (i + 1)
       (if i = 0 then row else if row > lowest_pos then row else lowest_pos) boundary"

definition lowest_boundary_pos :: "int \<Rightarrow> Node list \<Rightarrow> int" where
  "lowest_boundary_pos uninit boundary = lowest_boundary_loop 0 uninit boundary"

fun highest_boundary_loop :: "nat \<Rightarrow> int \<Rightarrow> Node list \<Rightarrow> int" where
  "highest_boundary_loop i highest_pos [] = highest_pos"
| "highest_boundary_loop i highest_pos ((row, col) # boundary) =
     highest_boundary_loop (i + 1)
       (if i = 0 then row else if row < highest_pos then row else highest_pos) boundary"

definition highest_boundary_pos :: "int \<Rightarrow> Node list \<Rightarrow> int" where
  "highest_boundary_pos uninit boundary = highest_boundary_loop 0 uninit boundary"

text \<open>
  \<open>highest_pixel_row\<close>: the first row, from the top, that holds a pixel equal to 0;
  \<open>input.rows\<close> when there is none. \<open>row_has_ink input i j\<close> is the inner loop
  over the columns from \<open>j\<close> on.
\<close>

function row_has_ink :: "Mat \<Rightarrow> int \<Rightarrow> int \<Rightarrow> bool" where
  "row_has_ink input i j =
     (if j < cols input then (if at_uchar input i j = 0 then True else row_has_ink input i (j + 1))
      else False)"
  by pat_completeness auto
termination
  by (relation "measure (\<lambda>(m, i, j). nat (cols m - j))") auto

declare row_has_ink.simps [simp del]

function highest_pixel_from :: "Mat \<Rightarrow> int \<Rightarrow> int" where
  "highest_pixel_from input i =
     (if i < rows input then (if row_has_ink input i 0 then i else highest_pixel_from input (i + 1))
      else rows input)"
  by pat_completeness auto
termination
  by (relation "measure (\<lambda>(m, i). nat (rows m - i))") auto

declare highest_pixel_from.simps [simp del]

definition highest_pixel_row :: "Mat \<Rightarrow> int" where
  "highest_pixel_row input = highest_pixel_from input 0"

text \<open>
  \<open>lowest_pixel_row\<close> scans the rows from the bottom and the columns from the right;
  0 when there is no ink.
\<close>

function row_has_ink_down :: "Mat \<Rightarrow> int \<Rightarrow> int \<Rightarrow> bool" where
  "row_has_ink_down input i j =
     (if j \<ge> 0 then (if at_uchar input i j = 0 then True else row_has_ink_down input i (j - 1))
      else False)"
  by pat_completeness auto
termination
  by (relation "measure (\<lambda>(m, i, j). nat (j + 1))") auto

declare row_has_ink_down.simps [simp del]

function lowest_pixel_from :: "Mat \<Rightarrow> int \<Rightarrow> int" where
  "lowest_pixel_from input i =
     (if i \<ge> 0 then
        (if row_has_ink_down input i (cols input - 1) then i else lowest_pixel_from input (i - 1))
      else 0)"
  by pat_completeness auto
termination
  by (relation "measure (\<lambda>(m, i). nat (i + 1))") auto

declare lowest_pixel_from.simps [simp del]

definition lowest_pixel_row :: "Mat \<Rightarrow> int" where
  "lowest_pixel_row input = lowest_pixel_from input (rows input - 1)"

section \<open>Cropping and the two projectors (utils.cpp)\<close>

text \<open>
  \<open>extract_bounding_box\<close> copies the region \<open>Rect(x, y, width, height)\<close>. The
  constructor of the region is OpenCV's; it asserts that the rectangle lies in the
  image and throws otherwise.
\<close>

definition extract_bounding_box :: "Mat \<Rightarrow> int \<Rightarrow> int \<Rightarrow> int \<Rightarrow> int \<Rightarrow> error + Mat" where
  "extract_bounding_box input x y width height =
     (if 0 \<le> x \<and> 0 \<le> width \<and> x + width \<le> cols input
         \<and> 0 \<le> y \<and> 0 \<le> height \<and> y + height \<le> rows input
      then Inr \<lparr>rows = height, cols = width, data = (\<lambda>(r, c). data input (r + y, c + x))\<rparr>
      else Inl BadROI)"

text \<open>
  \<open>output * 255\<close> on a \<open>uchar\<close> image saturates: 0 stays 0, every other value
  becomes 255.
\<close>

definition times255 :: "Mat \<Rightarrow> Mat" where
  "times255 m = m\<lparr>data := (\<lambda>n. if data m n = 0 then 0 else 255)\<rparr>"

text \<open>
  \<open>segment_text_line\<close> with two boundaries (lines 175 to 187). The result is the
  image handed to \<open>imwrite\<close>. \<open>u1\<close> and \<open>u2\<close> are the uninitialised locals of
  \<open>highest_boundary_pos\<close> and \<open>lowest_boundary_pos\<close>. \<open>two_boundary_rect\<close> names
  the rectangle \<open>(x, y, width, height)\<close> of line 185.
\<close>

definition two_boundary_rect :: "int \<Rightarrow> int \<Rightarrow> Mat \<Rightarrow> Node list \<Rightarrow> Node list \<Rightarrow> int \<times> int \<times> int \<times> int" where
  "two_boundary_rect u1 u2 input lower upper =
     (let highest_pos = highest_boundary_pos u1 upper;
          lowest_pos = lowest_boundary_pos u2 lower
      in (0, highest_pos, cols input, lowest_pos - highest_pos))"

definition segment_text_line_two :: "int \<Rightarrow> int \<Rightarrow> Mat \<Rightarrow> Node list \<Rightarrow> Node list \<Rightarrow> error + Mat" where
  "segment_text_line_two u1 u2 input lower upper =
     (case two_boundary_rect u1 u2 input lower upper of (x, y, width, height) \<Rightarrow>
        (case segment_above_boundary input lower of
           Inl e \<Rightarrow> Inl e
         | Inr o1 \<Rightarrow>
             (case segment_below_boundary o1 upper of
                Inl e \<Rightarrow> Inl e
              | Inr o2 \<Rightarrow>
                  (case extract_bounding_box o2 x y width height of
                     Inl e \<Rightarrow> Inl e
                   | Inr output \<Rightarrow> Inr (times255 output)))))"

text \<open>
  \<open>segment_text_line\<close> with one boundary (lines 189 to 206). \<open>one_boundary_rect\<close>
  names the rectangle of line 197, respectively line 202; both are computed from the
  clone of the input before anything is painted.
\<close>

definition one_boundary_rect :: "int \<Rightarrow> Mat \<Rightarrow> bool \<Rightarrow> Node list \<Rightarrow> int \<times> int \<times> int \<times> int" where
  "one_boundary_rect u input boundary_is_lower boundary =
     (if boundary_is_lower then
        (let lowest_pos = lowest_boundary_pos u boundary;
             upper_bound = highest_pixel_row input
         in (0, upper_bound, cols input, lowest_pos - upper_bound))
      else
        (let highest_pos = highest_boundary_pos u boundary;
             lower_bound = lowest_pixel_row input
         in (0, highest_pos, cols input, lower_bound - highest_pos)))"

definition segment_text_line_one :: "int \<Rightarrow> Mat \<Rightarrow> bool \<Rightarrow> Node list \<Rightarrow> error + Mat" where
  "segment_text_line_one u input boundary_is_lower boundary =
     (case one_boundary_rect u input boundary_is_lower boundary of (x, y, width, height) \<Rightarrow>
        (case (if boundary_is_lower then segment_above_boundary input boundary
               else segment_below_boundary input boundary) of
           Inl e \<Rightarrow> Inl e
         | Inr painted \<Rightarrow>
             (case extract_bounding_box painted x y width height of
                Inl e \<Rightarrow> Inl e
              | Inr output \<Rightarrow> Inr (times255 output))))"

section \<open>The grid (astar.cpp, struct Map)\<close>

record Map =
  grid :: Mat
  dmat :: Mat

definition directions :: "Node list" where
  "directions = [(-1, -1), (-1, 0), (-1, 1), (0, -1), (0, 1), (1, -1), (1, 0), (1, 1)]"

definition in_bounds :: "Map \<Rightarrow> Node \<Rightarrow> bool" where
  "in_bounds graph node =
     (case node of (row, col) \<Rightarrow>
        0 \<le> row \<and> row < rows (grid graph) \<and> 0 \<le> col \<and> col < cols (grid graph))"

definition is_wall :: "Map \<Rightarrow> Node \<Rightarrow> bool" where
  "is_wall graph node = (case node of (row, col) \<Rightarrow> uint (at_uchar (grid graph) row col) = 0)"

text \<open>
  \<open>closest_vertical_obstacle\<close> is declared to return \<open>int\<close>, and its second branch is
  \<open>return INFINITY;\<close>. The conversion of the floating-point infinity to \<open>int\<close> has no
  defined result in C++ (compilers give the largest or the smallest \<open>int\<close>). The
  first argument of the model, \<open>inf_int\<close>, is the \<open>int\<close> that this conversion
  yields; whatever it is, the function returns an \<open>int\<close>.
\<close>

definition closest_vertical_obstacle :: "int \<Rightarrow> Map \<Rightarrow> Node \<Rightarrow> int" where
  "closest_vertical_obstacle inf_int graph node =
     (case node of (row, col) \<Rightarrow>
        (let dist = uint (at_uchar (dmat graph) row col)
         in if dist < 255 then dist else inf_int))"

definition neighbors :: "Map \<Rightarrow> Node \<Rightarrow> int \<Rightarrow> Node list" where
  "neighbors graph node step =
     (case node of (row, col) \<Rightarrow>
        filter (in_bounds graph)
          (map (\<lambda>(dr, dc). (row + step * dr, col + step * dc)) directions))"

section \<open>The priority queue (astar.cpp, struct PriorityQueue)\<close>

text \<open>
  The queue is a \<open>std::priority_queue\<close> of pairs \<open>(priority, node)\<close> under
  \<open>greater\<close>: \<open>top\<close> is a least pair in the lexicographic order of the pair and
  of the node's tuple. The model keeps the pairs in a list; equal pairs cannot be
  told apart, so the list and the least pair determine what \<open>get\<close> returns and
  leaves. The source's \<open>double\<close> is modelled by \<open>real\<close>.
\<close>

type_synonym Element = "real \<times> Node"

definition element_less :: "Element \<Rightarrow> Element \<Rightarrow> bool" where
  "element_less a b =
     (case a of (p1, r1, c1) \<Rightarrow> case b of (p2, r2, c2) \<Rightarrow>
        p1 < p2 \<or> (p1 = p2 \<and> (r1 < r2 \<or> (r1 = r2 \<and> c1 < c2))))"

fun least_element :: "Element \<Rightarrow> Element list \<Rightarrow> Element" where
  "least_element e [] = e"
| "least_element e (x # xs) = least_element (if element_less x e then x else e) xs"

fun top :: "Element list \<Rightarrow> Element" where
  "top (x # xs) = least_element x xs"

definition empty_queue :: "Element list \<Rightarrow> bool" where
  "empty_queue elements = (elements = [])"

definition put_queue :: "Element list \<Rightarrow> Node \<Rightarrow> real \<Rightarrow> Element list" where
  "put_queue elements element priority = (priority, element) # elements"

definition get_queue :: "Element list \<Rightarrow> Node \<times> Element list" where
  "get_queue elements = (let e = top elements in (snd e, remove1 e elements))"

section \<open>Heuristic and cost (astar.cpp)\<close>

definition heuristic :: "Node \<Rightarrow> Node \<Rightarrow> int \<Rightarrow> real" where
  "heuristic start finish mfactor =
     (case start of (r1, c1) \<Rightarrow> case finish of (r2, c2) \<Rightarrow>
        (let a = (real_of_int (r1 - r2))\<^sup>2;
             b = (real_of_int (c1 - c2))\<^sup>2
         in real_of_int mfactor * sqrt (a + b)))"

definition V :: "Node \<Rightarrow> Node \<Rightarrow> real" where
  "V node start =
     (case node of (row, col) \<Rightarrow> case start of (st_row, st_col) \<Rightarrow>
        real_of_int \<bar>row - st_row\<bar>)"

definition N :: "Node \<Rightarrow> Node \<Rightarrow> real" where
  "N current neighbor =
     (case current of (crow, ccol) \<Rightarrow> case neighbor of (nrow, ncol) \<Rightarrow>
        if crow = nrow \<or> ccol = ncol then 10 else 14)"

definition M :: "Map \<Rightarrow> Node \<Rightarrow> real" where
  "M graph node = (if is_wall graph node then 1 else 0)"

text \<open>
  The divisor \<open>1 + min\<close> is at least 1 for every distance below the sentinel; it is
  0 only if the converted infinity is \<open>- 1\<close>, where the source's division gives the
  \<open>double\<close> infinity and HOL's gives 0. The properties below that depend on the
  value of \<open>D\<close> exclude that case.
\<close>

definition D :: "int \<Rightarrow> Map \<Rightarrow> Node \<Rightarrow> real \<times> real" where
  "D inf_int graph node =
     (let min = real_of_int (closest_vertical_obstacle inf_int graph node)
      in (1 / (1 + min), 1 / (1 + min\<^sup>2)))"

text \<open>
  The dataset tag is compared with \<open>strcmp(dataset.c_str(), "MLS") == 0\<close>, that is
  as a C string: the characters before the first NUL.
\<close>

definition c_str :: "string \<Rightarrow> string" where
  "c_str s = takeWhile (\<lambda>c. c \<noteq> CHR 0x00) s"

definition compute_cost :: "int \<Rightarrow> Map \<Rightarrow> Node \<Rightarrow> Node \<Rightarrow> Node \<Rightarrow> string \<Rightarrow> real" where
  "compute_cost inf_int graph current neighbor start dataset =
     (let v = V neighbor start;
          n = N current neighbor;
          m = M graph neighbor
      in case D inf_int graph neighbor of (d, d2) \<Rightarrow>
           if c_str dataset = ''MLS''
           then 2.5 * v + 1 * n + 50 * m + 130 * d + 0 * d2
           else 0.5 * v + 1 * n + 50 * m + 150 * d + 50 * d2)"

section \<open>Path reconstruction (astar.cpp)\<close>

text \<open>
  \<open>parents[current]\<close> on an \<open>unordered_map\<close>: a missing key is inserted with the
  value-initialised node \<open>(0, 0)\<close>, which is returned.
\<close>

definition index_parents :: "(Node \<rightharpoonup> Node) \<Rightarrow> Node \<Rightarrow> Node \<times> (Node \<rightharpoonup> Node)" where
  "index_parents parents k =
     (case parents k of Some v \<Rightarrow> (v, parents) | None \<Rightarrow> ((0, 0), parents(k \<mapsto> (0, 0))))"

text \<open>
  The loop of \<open>reconstruct_path\<close> need not terminate; the model returns \<open>None\<close>
  when it does not.
\<close>

partial_function (option) reconstruct_loop ::
  "Node \<Rightarrow> (Node \<rightharpoonup> Node) \<Rightarrow> Node \<Rightarrow> Node list \<Rightarrow> Node list option" where
  "reconstruct_loop start parents current path =
     (if current \<noteq> start then
        (case index_parents parents current of (c, ps) \<Rightarrow>
           reconstruct_loop start ps c (path @ [c]))
      else Some path)"

definition reconstruct_path :: "Node \<Rightarrow> Node \<Rightarrow> (Node \<rightharpoonup> Node) \<Rightarrow> Node list option" where
  "reconstruct_path start goal parents =
     map_option rev (reconstruct_loop start parents goal [goal])"

section \<open>The search (astar.cpp, astar_search)\<close>

text \<open>
  The tables of one run. \<open>expanded\<close> is not in the source: it records, in order, the
  nodes whose neighbours the loop has generated.
\<close>

record search =
  gscore :: "Node \<rightharpoonup> real"
  closedSet :: "Node set"
  openSet :: "Element list"
  parents :: "Node \<rightharpoonup> Node"
  expanded :: "Node list"

text \<open>\<open>gscore[current]\<close>: a missing key is inserted with the value 0.\<close>

definition index_gscore :: "(Node \<rightharpoonup> real) \<Rightarrow> Node \<Rightarrow> real \<times> (Node \<rightharpoonup> real)" where
  "index_gscore gs k = (case gs k of Some v \<Rightarrow> (v, gs) | None \<Rightarrow> (0, gs(k \<mapsto> 0)))"

text \<open>The body of the loop over the neighbours (lines 201 to 211).\<close>

definition relax ::
  "int \<Rightarrow> Map \<Rightarrow> Node \<Rightarrow> Node \<Rightarrow> string \<Rightarrow> int \<Rightarrow> Node \<Rightarrow> Node \<Rightarrow> search \<Rightarrow> search" where
  "relax inf_int graph start goal dataset_name mfactor current neighbor s =
     (if neighbor \<in> closedSet s then s
      else
        (case index_gscore (gscore s) current of (g_current, gs) \<Rightarrow>
           (let new_gscore = g_current
                  + compute_cost inf_int graph current neighbor start dataset_name
            in if (case gs neighbor of None \<Rightarrow> True | Some g \<Rightarrow> new_gscore < g)
               then
                 (let fscore = new_gscore + heuristic neighbor goal mfactor
                  in s\<lparr>gscore := gs(neighbor \<mapsto> new_gscore),
                       parents := (parents s)(neighbor \<mapsto> current),
                       openSet := put_queue (openSet s) neighbor fscore\<rparr>)
               else s\<lparr>gscore := gs\<rparr>)))"

text \<open>
  The \<open>while\<close> loop (lines 191 to 213). The result is the tables at the exit, with
  \<open>True\<close> when the loop is left by \<open>break\<close> (the goal was popped) and \<open>False\<close>
  when it is left because the queue is empty; \<open>None\<close> when the loop does not end.
\<close>

partial_function (option) astar_loop ::
  "int \<Rightarrow> Map \<Rightarrow> Node \<Rightarrow> Node \<Rightarrow> string \<Rightarrow> int \<Rightarrow> int \<Rightarrow> search \<Rightarrow> (bool \<times> search) option" where
  "astar_loop inf_int graph start goal dataset_name step mfactor s =
     (if empty_queue (openSet s) then Some (False, s)
      else
        (case get_queue (openSet s) of (current, rest) \<Rightarrow>
           if current = goal then Some (True, s\<lparr>openSet := rest\<rparr>)
           else
             astar_loop inf_int graph start goal dataset_name step mfactor
               (fold (relax inf_int graph start goal dataset_name mfactor current)
                  (neighbors graph current step)
                  (s\<lparr>openSet := rest, expanded := expanded s @ [current]\<rparr>))))"

text \<open>
  \<open>astar_search\<close>: the caller's \<open>parents\<close> map comes in by reference and is filled
  by the run.
\<close>

definition astar_search ::
  "int \<Rightarrow> Map \<Rightarrow> Node \<Rightarrow> Node \<Rightarrow> (Node \<rightharpoonup> Node) \<Rightarrow> string \<Rightarrow> int \<Rightarrow> int \<Rightarrow> (bool \<times> search) option" where
  "astar_search inf_int graph start goal parents0 dataset_name step mfactor =
     astar_loop inf_int graph start goal dataset_name step mfactor
       \<lparr>gscore = [start \<mapsto> 0], closedSet = {}, openSet = put_queue [] start 0,
        parents = parents0, expanded = []\<rparr>"

section \<open>Notions used to state the properties\<close>

text \<open>
  \<open>parent_of ps n\<close> is the node that \<open>ps[n]\<close> reads; \<open>parent_chain ps n d\<close> is the
  list \<open>n, ps[n], ps[ps[n]], \<dots>\<close> of \<open>d + 1\<close> nodes.
\<close>

definition parent_of :: "(Node \<rightharpoonup> Node) \<Rightarrow> Node \<Rightarrow> Node" where
  "parent_of ps n = fst (index_parents ps n)"

primrec parent_chain :: "(Node \<rightharpoonup> Node) \<Rightarrow> Node \<Rightarrow> nat \<Rightarrow> Node list" where
  "parent_chain ps n 0 = [n]"
| "parent_chain ps n (Suc d) = n # parent_chain ps (parent_of ps n) d"

text \<open>
  The values of the converted infinity for which every step cost is positive. They
  include the largest and the smallest 32-bit \<open>int\<close>.
\<close>

definition inf_usable :: "int \<Rightarrow> bool" where
  "inf_usable inf_int = (0 \<le> inf_int \<or> inf_int \<le> - 17)"

text \<open>The invariant of the search loop behind the path property.\<close>

definition search_inv :: "Map \<Rightarrow> Node \<Rightarrow> int \<Rightarrow> search \<Rightarrow> bool" where
  "search_inv graph start step s =
     (gscore s start = Some 0 \<and> parents s start = None
      \<and> finite (dom (gscore s))
      \<and> (\<forall>n g. gscore s n = Some g \<longrightarrow> 0 \<le> g)
      \<and> (\<forall>e \<in> set (openSet s). snd e \<in> dom (gscore s))
      \<and> (\<forall>n \<in> dom (gscore s). n = start \<or> n \<in> dom (parents s))
      \<and> (\<forall>n p. parents s n = Some p \<longrightarrow>
             n \<in> set (neighbors graph p step)
             \<and> (\<exists>gn gp. gscore s n = Some gn \<and> gscore s p = Some gp \<and> gp < gn)))"

text \<open>While the goal has a parent, it is still waiting in the queue.\<close>

definition goal_queued :: "Node \<Rightarrow> search \<Rightarrow> bool" where
  "goal_queued goal s = (parents s goal \<noteq> None \<longrightarrow> goal \<in> snd ` set (openSet s))"

section \<open>Example inputs\<close>

text \<open>A 4 by 4 page with ink at \<open>(1, 0)\<close> and \<open>(2, 2)\<close>.\<close>

definition page :: Mat where
  "page = \<lparr>rows = 4, cols = 4, data = (\<lambda>n. if n = (1, 0) \<or> n = (2, 2) then 0 else 255)\<rparr>"

text \<open>
  A row of four ink pixels; the distance of each to the ink of its column is 0.
  \<open>ink_row_final\<close> is the state in which the search from \<open>(0, 0)\<close> to \<open>(0, 3)\<close>
  with step 2 ends.
\<close>

definition ink_row :: Map where
  "ink_row = \<lparr>grid = \<lparr>rows = 1, cols = 4, data = (\<lambda>n. 0)\<rparr>,
              dmat = \<lparr>rows = 1, cols = 4, data = (\<lambda>n. 0)\<rparr>\<rparr>"

definition ink_row_final :: search where
  "ink_row_final =
     \<lparr>gscore = [(0, 0) \<mapsto> 0, (0, 2) \<mapsto> 190], closedSet = {}, openSet = [],
      parents = [(0, 2) \<mapsto> (0, 0)], expanded = [(0, 0), (0, 2)]\<rparr>"

text \<open>
  A page of two rows and three columns: background at \<open>(0, 0)\<close> and \<open>(0, 2)\<close>, ink
  elsewhere, with the vertical distances to the ink of each column.
  \<open>small_page_final\<close> is the state in which the search from \<open>(0, 0)\<close> to \<open>(1, 2)\<close>
  with step 1 and factor 20 ends.
\<close>

definition small_page :: Map where
  "small_page =
     \<lparr>grid = \<lparr>rows = 2, cols = 3, data = (\<lambda>n. if n = (0, 0) \<or> n = (0, 2) then 255 else 0)\<rparr>,
      dmat = \<lparr>rows = 2, cols = 3, data = (\<lambda>n. if n = (0, 0) \<or> n = (0, 2) then 1 else 0)\<rparr>\<rparr>"

definition small_page_final :: search where
  "small_page_final =
     \<lparr>gscore = [(0, 0) \<mapsto> 0, (0, 1) \<mapsto> 190, (1, 0) \<mapsto> 385 / 2, (1, 1) \<mapsto> 393 / 2,
                (0, 2) \<mapsto> 265, (1, 2) \<mapsto> 773 / 2],
      closedSet = {}, openSet = [(389, 1, 2)],
      parents = [(0, 1) \<mapsto> (0, 0), (1, 0) \<mapsto> (0, 0), (1, 1) \<mapsto> (0, 0),
                 (0, 2) \<mapsto> (0, 1), (1, 2) \<mapsto> (0, 1)],
      expanded = [(0, 0), (1, 1), (0, 1), (1, 0), (0, 2), (0, 2)]\<rparr>"

text \<open>A page of one pixel without ink: the distance map holds the sentinel 255.\<close>

definition blank :: Map where
  "blank = \<lparr>grid = \<lparr>rows = 1, cols = 1, data = (\<lambda>n. 255)\<rparr>,
            dmat = \<lparr>rows = 1, cols = 1, data = (\<lambda>n. 255)\<rparr>\<rparr>"

section \<open>The projector: extreme rows, painting, cropping\<close>

lemma lowest_boundary_loop_Suc:
  "lowest_boundary_loop (Suc i) acc boundary = Max (insert acc (fst ` set boundary))"
proof (induction boundary arbitrary: i acc)
  case Nil
  then show ?case by simp
next
  case (Cons n boundary)
  obtain row col where n: "n = (row, col)" by (cases n)
  have "Max (insert (if row > acc then row else acc) (fst ` set boundary))
        = Max (insert acc (insert row (fst ` set boundary)))"
    by (cases "set boundary = {}") (auto simp: max_def)
  then show ?case
    by (simp add: n Cons.IH)
qed

lemma lowest_boundary_pos_Max:
  "boundary \<noteq> [] \<Longrightarrow> lowest_boundary_pos u boundary = Max (fst ` set boundary)"
  by (cases boundary) (auto simp: lowest_boundary_pos_def lowest_boundary_loop_Suc)

lemma highest_boundary_loop_Suc:
  "highest_boundary_loop (Suc i) acc boundary = Min (insert acc (fst ` set boundary))"
proof (induction boundary arbitrary: i acc)
  case Nil
  then show ?case by simp
next
  case (Cons n boundary)
  obtain row col where n: "n = (row, col)" by (cases n)
  have "Min (insert (if row < acc then row else acc) (fst ` set boundary))
        = Min (insert acc (insert row (fst ` set boundary)))"
    by (cases "set boundary = {}") (auto simp: min_def)
  then show ?case
    by (simp add: n Cons.IH)
qed

lemma highest_boundary_pos_Min:
  "boundary \<noteq> [] \<Longrightarrow> highest_boundary_pos u boundary = Min (fst ` set boundary)"
  by (cases boundary) (auto simp: highest_boundary_pos_def highest_boundary_loop_Suc)

lemma row_has_ink_iff:
  "row_has_ink input i j \<longleftrightarrow> (\<exists>j'. j \<le> j' \<and> j' < cols input \<and> at_uchar input i j' = 0)"
proof (induction input i j rule: row_has_ink.induct)
  case (1 input i j)
  show ?case
  proof (cases "j < cols input")
    case False
    then show ?thesis by (subst row_has_ink.simps) auto
  next
    case True
    show ?thesis
    proof (cases "at_uchar input i j = 0")
      case z: True
      with True show ?thesis by (subst row_has_ink.simps) auto
    next
      case nz: False
      have "row_has_ink input i j = row_has_ink input i (j + 1)"
        using True nz by (subst row_has_ink.simps) simp
      also have "\<dots> \<longleftrightarrow> (\<exists>j'. j + 1 \<le> j' \<and> j' < cols input \<and> at_uchar input i j' = 0)"
        using "1.IH"[OF True nz] .
      also have "\<dots> \<longleftrightarrow> (\<exists>j'. j \<le> j' \<and> j' < cols input \<and> at_uchar input i j' = 0)"
      proof
        assume "\<exists>j'. j + 1 \<le> j' \<and> j' < cols input \<and> at_uchar input i j' = 0"
        then obtain j' where "j + 1 \<le> j'" "j' < cols input" "at_uchar input i j' = 0"
          by blast
        then have "j \<le> j' \<and> j' < cols input \<and> at_uchar input i j' = 0"
          by simp
        then show "\<exists>j'. j \<le> j' \<and> j' < cols input \<and> at_uchar input i j' = 0" ..
      next
        assume "\<exists>j'. j \<le> j' \<and> j' < cols input \<and> at_uchar input i j' = 0"
        then obtain j' where j': "j \<le> j'" "j' < cols input" "at_uchar input i j' = 0"
          by blast
        with nz have "j' \<noteq> j" by auto
        with j' have "j + 1 \<le> j'" by simp
        with j' show "\<exists>j'. j + 1 \<le> j' \<and> j' < cols input \<and> at_uchar input i j' = 0"
          by blast
      qed
      finally show ?thesis .
    qed
  qed
qed

lemma highest_pixel_from_spec:
  "i \<le> rows input \<Longrightarrow>
     i \<le> highest_pixel_from input i \<and> highest_pixel_from input i \<le> rows input
     \<and> (\<forall>k. i \<le> k \<and> k < highest_pixel_from input i \<longrightarrow> \<not> row_has_ink input k 0)
     \<and> (highest_pixel_from input i < rows input \<longrightarrow> row_has_ink input (highest_pixel_from input i) 0)"
proof (induction input i rule: highest_pixel_from.induct)
  case (1 input i)
  show ?case
  proof (cases "i < rows input")
    case False
    then have "highest_pixel_from input i = rows input"
      by (subst highest_pixel_from.simps) simp
    with "1.prems" False show ?thesis by auto
  next
    case True
    show ?thesis
    proof (cases "row_has_ink input i 0")
      case ink: True
      have "highest_pixel_from input i = i"
        using True ink by (subst highest_pixel_from.simps) simp
      with True ink show ?thesis by auto
    next
      case noink: False
      have e: "highest_pixel_from input i = highest_pixel_from input (i + 1)"
        using True noink by (subst highest_pixel_from.simps) simp
      from True have "i + 1 \<le> rows input" by simp
      from "1.IH"[OF True noink this]
      have ih: "i + 1 \<le> highest_pixel_from input (i + 1)"
        "highest_pixel_from input (i + 1) \<le> rows input"
        "\<forall>k. i + 1 \<le> k \<and> k < highest_pixel_from input (i + 1) \<longrightarrow> \<not> row_has_ink input k 0"
        "highest_pixel_from input (i + 1) < rows input \<longrightarrow> row_has_ink input (highest_pixel_from input (i + 1)) 0"
        by simp_all
      have "\<forall>k. i \<le> k \<and> k < highest_pixel_from input (i + 1) \<longrightarrow> \<not> row_has_ink input k 0"
      proof (intro allI impI)
        fix k assume k: "i \<le> k \<and> k < highest_pixel_from input (i + 1)"
        show "\<not> row_has_ink input k 0"
        proof (cases "k = i")
          case True
          with noink show ?thesis by simp
        next
          case False
          with k have "i + 1 \<le> k" by simp
          with k ih(3) show ?thesis by blast
        qed
      qed
      with ih show ?thesis unfolding e by auto
    qed
  qed
qed

lemmas run_paint = above_rows.simps below_rows.simps put_def inside_def

lemmas run_scan = highest_pixel_row_def highest_pixel_from.simps row_has_ink.simps at_uchar_def

text \<open>
  Claim C4 (the painting step writes only at column \<open>c\<close> and, when \<open>c + 1\<close> is in
  bounds, at column \<open>c + 1\<close>; it never writes outside the image). The guard of the
  second assignment is \<open>col < input.cols\<close>, which holds for every column of the image,
  the last one included. On the 4 by 4 page, with a boundary that runs along row 2 from
  the first to the last column, the node \<open>(2, 3)\<close> makes both painting loops assign
  to \<open>(2, 4)\<close>, a column that the image does not have.
\<close>

theorem paint_writes_past_last_column:
  "segment_above_boundary page [(2, 0), (2, 1), (2, 2), (2, 3)] = Inl (OutOfBounds 2 4)
   \<and> segment_below_boundary page [(2, 0), (2, 1), (2, 2), (2, 3)] = Inl (OutOfBounds 2 4)"
  by (simp add: page_def run_paint)

text \<open>
  Claim C8. For non-empty \<open>upper\<close> and \<open>lower\<close>, the rectangle that the two-boundary
  projector crops starts at column 0 and at row \<open>min_row(upper)\<close>, is as wide as the
  image and \<open>max_row(lower) - min_row(upper)\<close> high; whenever the projector produces an
  image, that image has these dimensions and holds the rows of the painted image from
  \<open>min_row(upper)\<close> on.
\<close>

theorem two_boundary_band:
  assumes "upper \<noteq> []" and "lower \<noteq> []"
  shows "two_boundary_rect u1 u2 input lower upper
           = (0, Min (fst ` set upper), cols input, Max (fst ` set lower) - Min (fst ` set upper))
         \<and> (\<forall>out. segment_text_line_two u1 u2 input lower upper = Inr out \<longrightarrow>
               rows out = Max (fst ` set lower) - Min (fst ` set upper) \<and> cols out = cols input
               \<and> (\<exists>o1 o2. segment_above_boundary input lower = Inr o1
                     \<and> segment_below_boundary o1 upper = Inr o2
                     \<and> (\<forall>r c. at_uchar out r c
                              = (if at_uchar o2 (r + Min (fst ` set upper)) c = 0 then 0 else 255))))"
proof -
  have r: "two_boundary_rect u1 u2 input lower upper
           = (0, Min (fst ` set upper), cols input, Max (fst ` set lower) - Min (fst ` set upper))"
    using assms
    by (simp add: two_boundary_rect_def lowest_boundary_pos_Max highest_boundary_pos_Min)
  have "rows out = Max (fst ` set lower) - Min (fst ` set upper) \<and> cols out = cols input
        \<and> (\<exists>o1 o2. segment_above_boundary input lower = Inr o1
              \<and> segment_below_boundary o1 upper = Inr o2
              \<and> (\<forall>r c. at_uchar out r c
                       = (if at_uchar o2 (r + Min (fst ` set upper)) c = 0 then 0 else 255)))"
    if "segment_text_line_two u1 u2 input lower upper = Inr out" for out
    using that unfolding segment_text_line_two_def r
    by (auto simp: extract_bounding_box_def times255_def at_uchar_def split: sum.splits if_splits)
  with r show ?thesis by blast
qed

text \<open>
  Witness for C8: on the 4 by 4 page, an upper boundary on row 0 and a lower boundary on
  row 3 give a band of height 3.
\<close>

theorem two_boundary_band_witness:
  "[(0, 0), (0, 1)] \<noteq> ([] :: Node list) \<and> [(3, 0), (3, 1)] \<noteq> ([] :: Node list)
   \<and> two_boundary_rect 0 0 page [(3, 0), (3, 1)] [(0, 0), (0, 1)] = (0, 0, 4, 3)
   \<and> (\<exists>out. segment_text_line_two 0 0 page [(3, 0), (3, 1)] [(0, 0), (0, 1)] = Inr out
          \<and> rows out = 3 \<and> cols out = 4)"
proof -
  have ne: "[(0, 0), (0, 1)] \<noteq> ([] :: Node list)" "[(3, 0), (3, 1)] \<noteq> ([] :: Node list)"
    by simp_all
  have "\<exists>out. segment_text_line_two 0 0 page [(3, 0), (3, 1)] [(0, 0), (0, 1)] = Inr out"
    by (simp add: segment_text_line_two_def two_boundary_rect_def lowest_boundary_pos_def
        highest_boundary_pos_def page_def run_paint extract_bounding_box_def)
  then obtain out where out: "segment_text_line_two 0 0 page [(3, 0), (3, 1)] [(0, 0), (0, 1)] = Inr out"
    by blast
  from two_boundary_band[OF ne, of 0 0 page] out
  show ?thesis by (simp add: page_def)
qed


text \<open>
  Counterexample to claim C7 as stated (the crop starts at the topmost ink row of the
  painted image). The page has ink at \<open>(1, 0)\<close> and \<open>(2, 2)\<close>. The lower boundary
  \<open>[(1, 0), (3, 1)]\<close> erases the ink at \<open>(1, 0)\<close>, so the topmost ink row of the
  painted image is 2; the crop starts at row 1.
\<close>

theorem lower_crop_starts_above_painted_ink:
  "(case segment_above_boundary page [(1, 0), (3, 1)] of
      Inl e \<Rightarrow> False
    | Inr painted \<Rightarrow>
        highest_pixel_row painted = 2
        \<and> one_boundary_rect 0 page True [(1, 0), (3, 1)] = (0, 1, 4, 2)
        \<and> fst (snd (one_boundary_rect 0 page True [(1, 0), (3, 1)])) \<noteq> highest_pixel_row painted)"
  by (simp add: page_def run_paint run_scan one_boundary_rect_def lowest_boundary_pos_def)

text \<open>
  Claim C7, amended. With a non-empty lower boundary the crop spans the full width,
  from the topmost ink row of the image as it is before the boundary is painted
  (\<open>highest_pixel_row\<close> of the clone: no ink above that row, ink in that row unless the
  image has none) down to \<open>max(row)\<close> over the boundary; the output holds the rows of
  the painted image from that row on.
\<close>

theorem lower_crop_from_unpainted_ink:
  assumes "boundary \<noteq> []"
  shows "one_boundary_rect u input True boundary
           = (0, highest_pixel_row input, cols input,
              Max (fst ` set boundary) - highest_pixel_row input)
         \<and> (\<forall>i j. 0 \<le> i \<and> i < highest_pixel_row input \<and> 0 \<le> j \<and> j < cols input
                \<longrightarrow> at_uchar input i j \<noteq> 0)
         \<and> (highest_pixel_row input < rows input
                \<longrightarrow> (\<exists>j. 0 \<le> j \<and> j < cols input \<and> at_uchar input (highest_pixel_row input) j = 0))
         \<and> (\<forall>out. segment_text_line_one u input True boundary = Inr out \<longrightarrow>
               (\<exists>painted. segment_above_boundary input boundary = Inr painted
                  \<and> rows out = Max (fst ` set boundary) - highest_pixel_row input
                  \<and> cols out = cols input
                  \<and> (\<forall>r c. at_uchar out r c
                         = (if at_uchar painted (r + highest_pixel_row input) c = 0 then 0 else 255))))"
proof -
  have r: "one_boundary_rect u input True boundary
           = (0, highest_pixel_row input, cols input,
              Max (fst ` set boundary) - highest_pixel_row input)"
    using assms by (simp add: one_boundary_rect_def lowest_boundary_pos_Max Let_def)
  have above: "\<forall>i j. 0 \<le> i \<and> i < highest_pixel_row input \<and> 0 \<le> j \<and> j < cols input
                \<longrightarrow> at_uchar input i j \<noteq> 0"
  proof (cases "0 \<le> rows input")
    case True
    from highest_pixel_from_spec[OF True]
    have "\<forall>k. 0 \<le> k \<and> k < highest_pixel_row input \<longrightarrow> \<not> row_has_ink input k 0"
      by (simp add: highest_pixel_row_def)
    then show ?thesis by (auto simp: row_has_ink_iff)
  next
    case False
    then have "highest_pixel_row input = rows input"
      unfolding highest_pixel_row_def by (subst highest_pixel_from.simps) simp
    with False show ?thesis by auto
  qed
  have found: "highest_pixel_row input < rows input
                \<longrightarrow> (\<exists>j. 0 \<le> j \<and> j < cols input \<and> at_uchar input (highest_pixel_row input) j = 0)"
  proof (cases "0 \<le> rows input")
    case True
    from highest_pixel_from_spec[OF True]
    have "highest_pixel_row input < rows input \<longrightarrow> row_has_ink input (highest_pixel_row input) 0"
      by (simp add: highest_pixel_row_def)
    then show ?thesis by (simp add: row_has_ink_iff)
  next
    case False
    then have "highest_pixel_row input = rows input"
      unfolding highest_pixel_row_def by (subst highest_pixel_from.simps) simp
    then show ?thesis by simp
  qed
  have crop: "\<exists>painted. segment_above_boundary input boundary = Inr painted
                  \<and> rows out = Max (fst ` set boundary) - highest_pixel_row input
                  \<and> cols out = cols input
                  \<and> (\<forall>r c. at_uchar out r c
                         = (if at_uchar painted (r + highest_pixel_row input) c = 0 then 0 else 255))"
    if "segment_text_line_one u input True boundary = Inr out" for out
    using that unfolding segment_text_line_one_def r
    by (auto simp: extract_bounding_box_def times255_def at_uchar_def split: sum.splits if_splits)
  from r above found crop show ?thesis by blast
qed

text \<open>Witness for the amended C7, on the page and the boundary of the counterexample.\<close>

theorem lower_crop_from_unpainted_ink_witness:
  "[(1, 0), (3, 1)] \<noteq> ([] :: Node list)
   \<and> one_boundary_rect 0 page True [(1, 0), (3, 1)] = (0, 1, 4, 2)
   \<and> at_uchar page 0 0 \<noteq> 0
   \<and> highest_pixel_row page < rows page
   \<and> (\<exists>out. segment_text_line_one 0 page True [(1, 0), (3, 1)] = Inr out \<and> rows out = 2)"
proof -
  have ne: "[(1, 0), (3, 1)] \<noteq> ([] :: Node list)" by simp
  have h: "highest_pixel_row page = 1"
    by (simp add: page_def run_scan)
  have "\<exists>out. segment_text_line_one 0 page True [(1, 0), (3, 1)] = Inr out"
    by (simp add: segment_text_line_one_def one_boundary_rect_def lowest_boundary_pos_def h)
       (simp add: page_def run_paint extract_bounding_box_def)
  then obtain out where out: "segment_text_line_one 0 page True [(1, 0), (3, 1)] = Inr out"
    by blast
  from lower_crop_from_unpainted_ink[OF ne, of 0 page] out h
  show ?thesis by (auto simp: page_def)
qed

text \<open>
  Claim C9 (a zero-length boundary makes the projector fail with an EmptyBoundary error
  and produce no image). Nothing in the projector tests the length of the path. For a
  zero-length path the loops of \<open>lowest_boundary_pos\<close> and \<open>highest_boundary_pos\<close>
  never run, so each function returns its local \<open>lowest_pos\<close>, respectively
  \<open>highest_pos\<close>, which was never assigned: the result is whatever that variable
  happened to hold. Both painting steps return the image as it is. None of these
  steps reports an error, and the projector goes on to build its rectangle from the
  unassigned row.
\<close>

theorem empty_boundary_reads_unassigned_row:
  "lowest_boundary_pos u [] = u
   \<and> highest_boundary_pos u [] = u
   \<and> segment_above_boundary page [] = Inr page
   \<and> segment_below_boundary page [] = Inr page"
  by (simp add: lowest_boundary_pos_def highest_boundary_pos_def)

section \<open>Cost model\<close>

text \<open>
  Claim C2 (at a node whose distance-map entry is the sentinel 255, the clearance query
  returns \<open>+\<infinity>\<close>, and \<open>D\<close> and \<open>D\<^sup>2\<close> are 0). On the one-pixel page without ink
  the query returns the \<open>int\<close> that the conversion of \<open>INFINITY\<close> yields, and \<open>D\<close>
  computes with that finite number: the second term \<open>1 / (1 + x\<^sup>2)\<close> is positive
  whatever the conversion gives, and the first is \<open>1 / 2147483648\<close> for the largest
  and \<open>- 1 / 2147483647\<close> for the smallest \<open>int\<close>.
\<close>

theorem sentinel_clearance_is_an_int:
  "closest_vertical_obstacle inf_int blank (0, 0) = inf_int
   \<and> D inf_int blank (0, 0) = (1 / (1 + real_of_int inf_int), 1 / (1 + (real_of_int inf_int)\<^sup>2))
   \<and> 0 < snd (D inf_int blank (0, 0))
   \<and> fst (D 2147483647 blank (0, 0)) = 1 / 2147483648
   \<and> fst (D (- 2147483648) blank (0, 0)) = - (1 / 2147483647)"
proof -
  have c: "closest_vertical_obstacle i blank (0, 0) = i" for i
    by (simp add: closest_vertical_obstacle_def blank_def at_uchar_def)
  have "0 < 1 + (real_of_int inf_int)\<^sup>2"
    by (rule add_pos_nonneg) simp_all
  then have "0 < 1 / (1 + (real_of_int inf_int)\<^sup>2)" by simp
  then show ?thesis by (simp add: D_def c Let_def)
qed


lemma c_str_plain: "CHR 0x00 \<notin> set tag \<Longrightarrow> c_str tag = tag"
  by (auto simp: c_str_def takeWhile_eq_all_conv)

lemma closest_vertical_obstacle_range:
  "inf_usable inf_int \<Longrightarrow>
     0 \<le> closest_vertical_obstacle inf_int graph node
     \<or> closest_vertical_obstacle inf_int graph node \<le> - 17"
  by (cases node) (auto simp: closest_vertical_obstacle_def inf_usable_def Let_def)

lemma D_bounds:
  assumes "inf_usable inf_int" and "D inf_int graph node = (d, d2)"
  shows "- (1 / 16) \<le> d" and "0 \<le> d2"
proof -
  define k where "k = closest_vertical_obstacle inf_int graph node"
  have d: "d = 1 / (1 + real_of_int k)" and d2: "d2 = 1 / (1 + (real_of_int k)\<^sup>2)"
    using assms(2) by (simp_all add: D_def k_def Let_def)
  show "0 \<le> d2" unfolding d2 by simp
  from closest_vertical_obstacle_range[OF assms(1), of graph node]
  consider "0 \<le> k" | "k \<le> - 17" unfolding k_def by blast
  then show "- (1 / 16) \<le> d"
  proof cases
    case 1
    then have "0 \<le> d" unfolding d by simp
    then show ?thesis by simp
  next
    case 2
    then have "real_of_int k \<le> - 17" by linarith
    then have neg: "1 + real_of_int k \<le> - 16" by simp
    then have "1 + real_of_int k < 0" by simp
    then have "(- (1 / 16) \<le> 1 / (1 + real_of_int k))
                 = (1 \<le> - (1 / 16) * (1 + real_of_int k))"
      by (rule neg_le_divide_eq)
    with neg show ?thesis unfolding d by simp
  qed
qed

lemma compute_cost_pos:
  assumes "inf_usable inf_int"
  shows "0 < compute_cost inf_int graph current neighbor start dataset"
proof -
  obtain d d2 where dd: "D inf_int graph neighbor = (d, d2)"
    by (cases "D inf_int graph neighbor")
  note b = D_bounds[OF assms dd]
  have v: "0 \<le> V neighbor start" by (cases neighbor; cases start) (simp add: V_def)
  have n: "10 \<le> N current neighbor" by (cases current; cases neighbor) (simp add: N_def)
  have m: "0 \<le> M graph neighbor" by (simp add: M_def)
  show ?thesis
    using b v n m by (simp add: compute_cost_def dd Let_def)
qed

section \<open>Path reconstruction\<close>

lemma parent_of_alt: "parent_of ps n = (case ps n of Some v \<Rightarrow> v | None \<Rightarrow> (0, 0))"
  by (simp add: parent_of_def index_parents_def split: option.splits)

lemma index_parents_parent_of:
  assumes "index_parents ps n = (c, ps')"
  shows "c = parent_of ps n" and "parent_of ps' = parent_of ps"
proof -
  show "c = parent_of ps n"
    using assms by (simp add: parent_of_def)
  show "parent_of ps' = parent_of ps"
  proof
    fix m
    show "parent_of ps' m = parent_of ps m"
    proof (cases "ps n")
      case None
      with assms have "ps' = ps(n \<mapsto> (0, 0))" by (auto simp: index_parents_def)
      with None show ?thesis by (simp add: parent_of_alt)
    next
      case (Some v)
      with assms have "ps' = ps" by (auto simp: index_parents_def)
      then show ?thesis by simp
    qed
  qed
qed

lemma parent_chain_cong:
  "parent_of ps' = parent_of ps \<Longrightarrow> parent_chain ps' n d = parent_chain ps n d"
  by (induction d arbitrary: n) simp_all

lemma parent_chain_hd [simp]: "hd (parent_chain ps n d) = n"
  by (cases d) simp_all

lemma parent_chain_last: "last (parent_chain ps n d) = (parent_of ps ^^ d) n"
proof (induction d arbitrary: n)
  case 0
  then show ?case by simp
next
  case (Suc d)
  have "parent_chain ps (parent_of ps n) d \<noteq> []" by (cases d) simp_all
  with Suc show ?case by (simp add: funpow_swap1)
qed

lemma parent_chain_length [simp]: "length (parent_chain ps n d) = Suc d"
  by (induction d arbitrary: n) simp_all

lemma reconstruct_loop_chain:
  assumes "(parent_of ps ^^ d) cur = start"
    and "\<forall>i<d. (parent_of ps ^^ i) cur \<noteq> start"
  shows "reconstruct_loop start ps cur path = Some (path @ tl (parent_chain ps cur d))"
  using assms
proof (induction d arbitrary: ps cur path)
  case 0
  then show ?case by (subst reconstruct_loop.simps) simp
next
  case (Suc d)
  from Suc.prems(2) have ne: "cur \<noteq> start" by force
  obtain c ps' where ip: "index_parents ps cur = (c, ps')"
    by (cases "index_parents ps cur")
  note po = index_parents_parent_of[OF ip]
  have reach: "(parent_of ps' ^^ d) c = start"
    using Suc.prems(1) po by (simp add: funpow_swap1)
  have first: "\<forall>i<d. (parent_of ps' ^^ i) c \<noteq> start"
  proof (intro allI impI)
    fix i assume "i < d"
    then have "Suc i < Suc d" by simp
    with Suc.prems(2) have "(parent_of ps ^^ Suc i) cur \<noteq> start" by blast
    then show "(parent_of ps' ^^ i) c \<noteq> start"
      using po by (simp add: funpow_swap1)
  qed
  have "reconstruct_loop start ps cur path = reconstruct_loop start ps' c (path @ [c])"
    using ne ip by (subst reconstruct_loop.simps) simp
  also have "\<dots> = Some ((path @ [c]) @ tl (parent_chain ps' c d))"
    by (rule Suc.IH[OF reach first])
  also have "parent_chain ps' c d = parent_chain ps c d"
    by (rule parent_chain_cong[OF po(2)])
  also have "(path @ [c]) @ tl (parent_chain ps c d) = path @ tl (parent_chain ps cur (Suc d))"
    using po(1) by (cases d) simp_all
  finally show ?case .
qed

lemma first_reach:
  assumes "(f ^^ k) (x :: Node) = y"
  shows "\<exists>d\<le>k. (f ^^ d) x = y \<and> (\<forall>i<d. (f ^^ i) x \<noteq> y)"
proof -
  define d where "d = (LEAST i. (f ^^ i) x = y)"
  have "(f ^^ d) x = y"
    unfolding d_def using assms by (rule LeastI)
  moreover have "d \<le> k"
    unfolding d_def using assms by (rule Least_le)
  moreover have "\<forall>i<d. (f ^^ i) x \<noteq> y"
    unfolding d_def using not_less_Least by blast
  ultimately show ?thesis by blast
qed

lemma reconstruct_path_chain:
  assumes "(parent_of ps ^^ d) goal = start"
    and "\<forall>i<d. (parent_of ps ^^ i) goal \<noteq> start"
  shows "reconstruct_path start goal ps = Some (rev (parent_chain ps goal d))"
proof -
  have "goal # tl (parent_chain ps goal d) = parent_chain ps goal d"
    by (cases d) simp_all
  with reconstruct_loop_chain[OF assms, of "[goal]"] show ?thesis
    by (simp add: reconstruct_path_def)
qed

lemma reconstruct_loop_reaches:
  assumes "reconstruct_loop start ps cur path = Some r"
  shows "\<exists>k. (parent_of ps ^^ k) cur = start"
proof (rule reconstruct_loop.raw_induct
    [where P = "\<lambda>start ps cur path r. \<exists>k. (parent_of ps ^^ k) cur = start", OF _ assms])
  fix loop :: "Node \<Rightarrow> (Node \<rightharpoonup> Node) \<Rightarrow> Node \<Rightarrow> Node list \<Rightarrow> Node list option"
  fix start ps cur path r
  assume IH: "\<And>start ps cur path r. loop start ps cur path = Some r
                \<Longrightarrow> \<exists>k. (parent_of ps ^^ k) cur = start"
  assume body: "(if cur \<noteq> start
                 then case index_parents ps cur of (c, ps') \<Rightarrow> loop start ps' c (path @ [c])
                 else Some path) = Some r"
  show "\<exists>k. (parent_of ps ^^ k) cur = start"
  proof (cases "cur = start")
    case True
    then have "(parent_of ps ^^ 0) cur = start" by simp
    then show ?thesis by blast
  next
    case False
    obtain c ps' where ip: "index_parents ps cur = (c, ps')"
      by (cases "index_parents ps cur")
    note po = index_parents_parent_of[OF ip]
    from body False ip have "loop start ps' c (path @ [c]) = Some r" by simp
    from IH[OF this] obtain k where "(parent_of ps' ^^ k) c = start" by blast
    with po have "(parent_of ps ^^ Suc k) cur = start" by (simp add: funpow_swap1)
    then show ?thesis by blast
  qed
qed

text \<open>
  Claim C10. If following the parents map from \<open>goal\<close> reaches \<open>start\<close> after
  \<open>k\<close> steps, \<open>reconstruct_path\<close> terminates and returns the reversed parent chain
  up to the first occurrence of \<open>start\<close>: a list of \<open>d + 1 \<le> k + 1\<close> nodes that begins
  at \<open>start\<close> and ends at \<open>goal\<close>. (\<open>reconstruct_loop_reaches\<close> above is the
  converse: the loop returns only if the chain reaches \<open>start\<close>.)
\<close>

theorem reconstruct_path_terminates:
  assumes "(parent_of ps ^^ k) goal = start"
  shows "\<exists>d\<le>k. reconstruct_path start goal ps = Some (rev (parent_chain ps goal d))
           \<and> hd (rev (parent_chain ps goal d)) = start
           \<and> last (rev (parent_chain ps goal d)) = goal
           \<and> length (rev (parent_chain ps goal d)) = Suc d
           \<and> (\<forall>i<d. (parent_of ps ^^ i) goal \<noteq> start)"
proof -
  from first_reach[OF assms] obtain d where d: "d \<le> k" "(parent_of ps ^^ d) goal = start"
    "\<forall>i<d. (parent_of ps ^^ i) goal \<noteq> start" by blast
  have ne: "parent_chain ps goal d \<noteq> []" by (cases d) simp_all
  have "hd (rev (parent_chain ps goal d)) = start"
    using ne d(2) by (simp add: hd_rev parent_chain_last)
  moreover have "last (rev (parent_chain ps goal d)) = goal"
    using ne by (simp add: last_rev)
  ultimately show ?thesis
    using d reconstruct_path_chain[OF d(2,3)] by auto
qed

section \<open>Invariants of the search\<close>

lemma relax_cases:
  assumes "gscore s current = Some gc"
    and "new = gc + compute_cost inf_int graph current neighbor start ds"
  shows "relax inf_int graph start goal ds mf current neighbor s = s
         \<or> (relax inf_int graph start goal ds mf current neighbor s
               = s\<lparr>gscore := (gscore s)(neighbor \<mapsto> new),
                    parents := (parents s)(neighbor \<mapsto> current),
                    openSet := (new + heuristic neighbor goal mf, neighbor) # openSet s\<rparr>
             \<and> (case gscore s neighbor of None \<Rightarrow> True | Some g \<Rightarrow> new < g))"
  using assms(1) unfolding assms(2)
  by (simp add: relax_def index_gscore_def put_queue_def Let_def)

lemma relax_inv:
  assumes inv: "search_inv graph start step s"
    and cur: "current \<in> dom (gscore s)"
    and nb: "neighbor \<in> set (neighbors graph current step)"
    and ok: "inf_usable inf_int"
  shows "search_inv graph start step (relax inf_int graph start goal ds mf current neighbor s)"
proof -
  from cur obtain gc where gc: "gscore s current = Some gc" by blast
  define new where "new = gc + compute_cost inf_int graph current neighbor start ds"
  define s' where "s' = s\<lparr>gscore := (gscore s)(neighbor \<mapsto> new),
                    parents := (parents s)(neighbor \<mapsto> current),
                    openSet := (new + heuristic neighbor goal mf, neighbor) # openSet s\<rparr>"
  from inv have g0: "gscore s start = Some 0" and p0: "parents s start = None"
    and fin: "finite (dom (gscore s))"
    and nonneg: "\<And>n g. gscore s n = Some g \<Longrightarrow> 0 \<le> g"
    and queued: "\<And>e. e \<in> set (openSet s) \<Longrightarrow> snd e \<in> dom (gscore s)"
    and has_parent: "\<And>n. n \<in> dom (gscore s) \<Longrightarrow> n = start \<or> n \<in> dom (parents s)"
    and link: "\<And>n p. parents s n = Some p \<Longrightarrow>
             n \<in> set (neighbors graph p step)
             \<and> (\<exists>gn gp. gscore s n = Some gn \<and> gscore s p = Some gp \<and> gp < gn)"
    unfolding search_inv_def by blast+
  have gc0: "0 \<le> gc" using nonneg[OF gc] .
  have above: "gc < new" unfolding new_def using compute_cost_pos[OF ok] by simp
  from relax_cases[OF gc new_def, of goal mf]
  consider "relax inf_int graph start goal ds mf current neighbor s = s"
    | "relax inf_int graph start goal ds mf current neighbor s = s'"
      "case gscore s neighbor of None \<Rightarrow> True | Some g \<Rightarrow> new < g"
    unfolding s'_def by blast
  then show ?thesis
  proof cases
    case 1
    with inv show ?thesis by simp
  next
    case 2
    have ns: "neighbor \<noteq> start"
    proof
      assume "neighbor = start"
      with 2(2) g0 have "new < 0" by simp
      with above gc0 show False by simp
    qed
    have nc: "neighbor \<noteq> current"
    proof
      assume "neighbor = current"
      with 2(2) gc have "new < gc" by simp
      with above show False by simp
    qed
    have lower: "\<And>g. gscore s neighbor = Some g \<Longrightarrow> new < g"
      using 2(2) by simp
    have "search_inv graph start step s'"
      unfolding search_inv_def
    proof (intro conjI)
      show "gscore s' start = Some 0" using ns g0 by (simp add: s'_def)
      show "parents s' start = None" using ns p0 by (simp add: s'_def)
      show "finite (dom (gscore s'))" using fin by (simp add: s'_def)
      show "\<forall>n g. gscore s' n = Some g \<longrightarrow> 0 \<le> g"
        using nonneg above gc0 by (auto simp: s'_def split: if_splits)
      show "\<forall>e\<in>set (openSet s'). snd e \<in> dom (gscore s')"
        using queued by (auto simp: s'_def)
      show "\<forall>n\<in>dom (gscore s'). n = start \<or> n \<in> dom (parents s')"
        using has_parent by (auto simp: s'_def)
      show "\<forall>n p. parents s' n = Some p \<longrightarrow>
             n \<in> set (neighbors graph p step)
             \<and> (\<exists>gn gp. gscore s' n = Some gn \<and> gscore s' p = Some gp \<and> gp < gn)"
      proof (intro allI impI)
        fix n p assume np: "parents s' n = Some p"
        show "n \<in> set (neighbors graph p step)
             \<and> (\<exists>gn gp. gscore s' n = Some gn \<and> gscore s' p = Some gp \<and> gp < gn)"
        proof (cases "n = neighbor")
          case True
          with np have "p = current" by (simp add: s'_def)
          with True nb nc gc above show ?thesis by (simp add: s'_def)
        next
          case False
          with np have old: "parents s n = Some p" by (simp add: s'_def)
          from link[OF old] obtain gn gp where l: "n \<in> set (neighbors graph p step)"
            "gscore s n = Some gn" "gscore s p = Some gp" "gp < gn" by blast
          show ?thesis
          proof (cases "p = neighbor")
            case True
            with l lower have "new < gn" by force
            with True False l show ?thesis by (simp add: s'_def)
          next
            case pn: False
            with False l show ?thesis by (simp add: s'_def)
          qed
        qed
      qed
    qed
    with 2(1) show ?thesis by simp
  qed
qed

lemma relax_gscore_dom:
  "dom (gscore s) \<subseteq> dom (gscore (relax inf_int graph start goal ds mf current neighbor s))"
  by (auto simp: relax_def index_gscore_def Let_def split: option.splits if_splits)

lemma fold_relax_inv:
  assumes "search_inv graph start step s"
    and "current \<in> dom (gscore s)"
    and "set nbs \<subseteq> set (neighbors graph current step)"
    and "inf_usable inf_int"
  shows "search_inv graph start step
           (fold (relax inf_int graph start goal ds mf current) nbs s)"
  using assms
proof (induction nbs arbitrary: s)
  case Nil
  then show ?case by simp
next
  case (Cons nb nbs)
  let ?s = "relax inf_int graph start goal ds mf current nb s"
  have "search_inv graph start step ?s"
    using Cons.prems by (intro relax_inv) auto
  moreover have "current \<in> dom (gscore ?s)"
    using Cons.prems(2) relax_gscore_dom by blast
  ultimately show ?case
    using Cons.IH[of ?s] Cons.prems by simp
qed

lemma least_element_in: "least_element e xs \<in> set (e # xs)"
proof (induction xs arbitrary: e)
  case Nil
  then show ?case by simp
next
  case (Cons x xs)
  from Cons.IH[of "if element_less x e then x else e"] show ?case
    by (auto split: if_splits)
qed

lemma top_in: "q \<noteq> [] \<Longrightarrow> top q \<in> set q"
  using least_element_in by (cases q) simp_all

lemma get_queue_props:
  assumes "q \<noteq> []" and "get_queue q = (current, rest)"
  shows "top q \<in> set q" and "current = snd (top q)" and "rest = remove1 (top q) q"
  using assms top_in by (simp_all add: get_queue_def Let_def)

lemma search_inv_queue:
  assumes "search_inv graph start step s" and "set q \<subseteq> set (openSet s)"
  shows "search_inv graph start step (s\<lparr>openSet := q, expanded := x\<rparr>)"
  using assms unfolding search_inv_def by auto

lemma search_inv_queue':
  assumes "search_inv graph start step s" and "set q \<subseteq> set (openSet s)"
  shows "search_inv graph start step (s\<lparr>openSet := q\<rparr>)"
  using assms unfolding search_inv_def by auto

lemma astar_loop_inv:
  assumes run: "astar_loop inf_int graph start goal ds step mf s = Some r"
    and ok: "inf_usable inf_int"
    and inv: "search_inv graph start step s"
  shows "search_inv graph start step (snd r) \<and> (fst r \<longrightarrow> goal \<in> dom (gscore (snd r)))"
proof -
  have "inf_usable inf_int \<longrightarrow> search_inv graph start step s \<longrightarrow>
          search_inv graph start step (snd r) \<and> (fst r \<longrightarrow> goal \<in> dom (gscore (snd r)))"
  proof (rule astar_loop.raw_induct
      [where P = "\<lambda>inf_int graph start goal ds step mf s r.
         inf_usable inf_int \<longrightarrow> search_inv graph start step s \<longrightarrow>
          search_inv graph start step (snd r) \<and> (fst r \<longrightarrow> goal \<in> dom (gscore (snd r)))",
       OF _ run])
    fix loop :: "int \<Rightarrow> Map \<Rightarrow> Node \<Rightarrow> Node \<Rightarrow> string \<Rightarrow> int \<Rightarrow> int \<Rightarrow> search \<Rightarrow> (bool \<times> search) option"
    fix inf_int graph start goal ds step mf s r
    assume IH: "\<And>inf_int graph start goal ds step mf s r.
        loop inf_int graph start goal ds step mf s = Some r \<Longrightarrow>
        inf_usable inf_int \<longrightarrow> search_inv graph start step s \<longrightarrow>
          search_inv graph start step (snd r) \<and> (fst r \<longrightarrow> goal \<in> dom (gscore (snd r)))"
    assume body: "(if empty_queue (openSet s) then Some (False, s)
      else case get_queue (openSet s) of
           (current, rest) \<Rightarrow>
             if current = goal then Some (True, s\<lparr>openSet := rest\<rparr>)
             else loop inf_int graph start goal ds step mf
                   (fold (relax inf_int graph start goal ds mf current)
                     (neighbors graph current step)
                     (s\<lparr>openSet := rest, expanded := expanded s @ [current]\<rparr>))) =
     Some r"
    show "inf_usable inf_int \<longrightarrow> search_inv graph start step s \<longrightarrow>
          search_inv graph start step (snd r) \<and> (fst r \<longrightarrow> goal \<in> dom (gscore (snd r)))"
    proof (intro impI)
      assume ok: "inf_usable inf_int" and inv: "search_inv graph start step s"
      show "search_inv graph start step (snd r) \<and> (fst r \<longrightarrow> goal \<in> dom (gscore (snd r)))"
      proof (cases "openSet s = []")
        case True
        with body have "r = (False, s)" by (simp add: empty_queue_def)
        with inv show ?thesis by simp
      next
        case False
        obtain current rest where g: "get_queue (openSet s) = (current, rest)"
          by (cases "get_queue (openSet s)")
        note gp = get_queue_props[OF False g]
        from inv gp(1,2) have cur: "current \<in> dom (gscore s)"
          unfolding search_inv_def by blast
        have sub: "set rest \<subseteq> set (openSet s)"
          unfolding gp(3) by (rule set_remove1_subset)
        show ?thesis
        proof (cases "current = goal")
          case True
          with body False g have "r = (True, s\<lparr>openSet := rest\<rparr>)"
            by (simp add: empty_queue_def)
          with search_inv_queue'[OF inv sub] cur True show ?thesis by simp
        next
          case ng: False
          let ?s1 = "s\<lparr>openSet := rest, expanded := expanded s @ [current]\<rparr>"
          let ?s2 = "fold (relax inf_int graph start goal ds mf current)
                     (neighbors graph current step) ?s1"
          from body False g ng
          have l: "loop inf_int graph start goal ds step mf ?s2 = Some r"
            by (simp add: empty_queue_def)
          have "search_inv graph start step ?s1"
            by (rule search_inv_queue[OF inv sub])
          moreover have "current \<in> dom (gscore ?s1)" using cur by simp
          ultimately have "search_inv graph start step ?s2"
            using ok by (intro fold_relax_inv) auto
          with IH[OF l] ok show ?thesis by blast
        qed
      qed
    qed
  qed
  with ok inv show ?thesis by blast
qed

lemma successively_nth:
  "successively R xs \<Longrightarrow> Suc i < length xs \<Longrightarrow> R (xs ! i) (xs ! Suc i)"
proof (induction xs arbitrary: i)
  case Nil
  then show ?case by simp
next
  case (Cons x xs)
  show ?case
  proof (cases i)
    case 0
    with Cons.prems show ?thesis by (cases xs) simp_all
  next
    case (Suc j)
    with Cons.prems have "successively R xs" "Suc j < length xs"
      by (auto simp: successively_Cons)
    from Cons.IH[OF this] Suc show ?thesis by simp
  qed
qed

lemma chain_to_start:
  assumes inv: "search_inv graph start step s"
  shows "n \<in> dom (gscore s) \<Longrightarrow>
     \<exists>d. (parent_of (parents s) ^^ d) n = start
        \<and> (\<forall>i<d. (parent_of (parents s) ^^ i) n \<noteq> start)
        \<and> successively (\<lambda>a b. a \<in> set (neighbors graph b step)) (parent_chain (parents s) n d)"
proof (induction n rule: measure_induct_rule
    [where f = "\<lambda>n. card {m \<in> dom (gscore s). the (gscore s m) < the (gscore s n)}"])
  case (less n)
  let ?p = "parent_of (parents s)"
  let ?R = "\<lambda>a b. a \<in> set (neighbors graph b step)"
  from inv have fin: "finite (dom (gscore s))"
    and has_parent: "\<And>n. n \<in> dom (gscore s) \<Longrightarrow> n = start \<or> n \<in> dom (parents s)"
    and link: "\<And>n p. parents s n = Some p \<Longrightarrow>
             n \<in> set (neighbors graph p step)
             \<and> (\<exists>gn gp. gscore s n = Some gn \<and> gscore s p = Some gp \<and> gp < gn)"
    unfolding search_inv_def by blast+
  show ?case
  proof (cases "n = start")
    case True
    then have "(?p ^^ 0) n = start \<and> (\<forall>i<0. (?p ^^ i) n \<noteq> start)
        \<and> successively ?R (parent_chain (parents s) n 0)" by simp
    then show ?thesis by blast
  next
    case False
    with has_parent[OF less.prems] obtain p where p: "parents s n = Some p" by blast
    from link[OF p] obtain gn gp where l: "n \<in> set (neighbors graph p step)"
      "gscore s n = Some gn" "gscore s p = Some gp" "gp < gn" by blast
    have pn: "?p n = p" using p by (simp add: parent_of_alt)
    have "{m \<in> dom (gscore s). the (gscore s m) < the (gscore s p)}
            \<subset> {m \<in> dom (gscore s). the (gscore s m) < the (gscore s n)}"
    proof
      show "{m \<in> dom (gscore s). the (gscore s m) < the (gscore s p)}
            \<subseteq> {m \<in> dom (gscore s). the (gscore s m) < the (gscore s n)}"
        using l by auto
      have "p \<in> {m \<in> dom (gscore s). the (gscore s m) < the (gscore s n)}"
        using l by auto
      moreover have "p \<notin> {m \<in> dom (gscore s). the (gscore s m) < the (gscore s p)}"
        by simp
      ultimately show "{m \<in> dom (gscore s). the (gscore s m) < the (gscore s p)}
            \<noteq> {m \<in> dom (gscore s). the (gscore s m) < the (gscore s n)}"
        by blast
    qed
    moreover have "finite {m \<in> dom (gscore s). the (gscore s m) < the (gscore s n)}"
      using fin by simp
    ultimately have "card {m \<in> dom (gscore s). the (gscore s m) < the (gscore s p)}
            < card {m \<in> dom (gscore s). the (gscore s m) < the (gscore s n)}"
      by (rule psubset_card_mono[rotated])
    moreover have "p \<in> dom (gscore s)" using l by blast
    ultimately obtain d where d: "(?p ^^ d) p = start" "\<forall>i<d. (?p ^^ i) p \<noteq> start"
      "successively ?R (parent_chain (parents s) p d)"
      using less.IH[of p] by blast
    have "(?p ^^ Suc d) n = start"
      using d(1) pn by (simp add: funpow_swap1)
    moreover have "\<forall>i<Suc d. (?p ^^ i) n \<noteq> start"
    proof (intro allI impI)
      fix i assume i: "i < Suc d"
      show "(?p ^^ i) n \<noteq> start"
      proof (cases i)
        case 0
        with False show ?thesis by simp
      next
        case (Suc j)
        with i d(2) have "(?p ^^ j) p \<noteq> start" by simp
        with Suc pn show ?thesis by (simp add: funpow_swap1)
      qed
    qed
    moreover have "successively ?R (parent_chain (parents s) n (Suc d))"
      using d(3) l(1) pn by (simp add: successively_Cons)
    ultimately show ?thesis by blast
  qed
qed

lemma initial_search_inv:
  "search_inv graph start step
     \<lparr>gscore = [start \<mapsto> 0], closedSet = {}, openSet = put_queue [] start 0,
      parents = Map.empty, expanded = []\<rparr>"
  by (simp add: search_inv_def put_queue_def)

text \<open>
  Claim C6. For every run of the search, on a fresh parents map, in which the goal is
  popped, \<open>reconstruct_path\<close> returns a path \<open>P\<close>: it is not empty, \<open>P[0] = start\<close>,
  \<open>P[-1] = goal\<close>, every consecutive pair \<open>(u, v)\<close> of \<open>P\<close> has
  \<open>v \<in> neighbors(u, step)\<close>, and when \<open>start = goal\<close> the path is \<open>[start]\<close>.
  The step costs have to be positive, which they are when the converted infinity is
  not a small negative number.
\<close>

theorem successful_run_path:
  assumes run: "astar_search inf_int graph start goal Map.empty dataset_name step mfactor
                  = Some (True, s)"
    and ok: "inf_usable inf_int"
  shows "\<exists>P. reconstruct_path start goal (parents s) = Some P
           \<and> P \<noteq> [] \<and> hd P = start \<and> last P = goal
           \<and> (\<forall>i. Suc i < length P \<longrightarrow> P ! Suc i \<in> set (neighbors graph (P ! i) step))
           \<and> (start = goal \<longrightarrow> P = [start])"
proof -
  from astar_loop_inv[OF run[unfolded astar_search_def] ok initial_search_inv]
  have inv: "search_inv graph start step s" and g: "goal \<in> dom (gscore s)"
    by simp_all
  let ?ps = "parents s"
  from chain_to_start[OF inv g] obtain d where
    d: "(parent_of ?ps ^^ d) goal = start" "\<forall>i<d. (parent_of ?ps ^^ i) goal \<noteq> start"
    and link: "successively (\<lambda>a b. a \<in> set (neighbors graph b step)) (parent_chain ?ps goal d)"
    by blast
  let ?P = "rev (parent_chain ?ps goal d)"
  have ne: "parent_chain ?ps goal d \<noteq> []" by (cases d) simp_all
  have r: "reconstruct_path start goal ?ps = Some ?P"
    by (rule reconstruct_path_chain[OF d])
  have h: "hd ?P = start" using ne d(1) by (simp add: hd_rev parent_chain_last)
  have l: "last ?P = goal" using ne by (simp add: last_rev)
  have "successively (\<lambda>a b. b \<in> set (neighbors graph a step)) ?P"
    using link by simp
  then have n: "\<forall>i. Suc i < length ?P \<longrightarrow> ?P ! Suc i \<in> set (neighbors graph (?P ! i) step)"
    using successively_nth[where R = "\<lambda>a b. b \<in> set (neighbors graph a step)"] by blast
  have one: "start = goal \<longrightarrow> ?P = [start]"
  proof
    assume sg: "start = goal"
    have "d = 0"
    proof (rule ccontr)
      assume "d \<noteq> 0"
      then have "0 < d" by simp
      with d(2) have "(parent_of ?ps ^^ 0) goal \<noteq> start" by blast
      with sg show False by simp
    qed
    with sg show "?P = [start]" by simp
  qed
  from r ne h l n one show ?thesis by blast
qed

lemma relax_closedSet [simp]:
  "closedSet (relax inf_int graph start goal ds mf current neighbor s) = closedSet s"
  by (simp add: relax_def index_gscore_def Let_def split: option.splits)

lemma fold_relax_closedSet [simp]:
  "closedSet (fold (relax inf_int graph start goal ds mf current) nbs s) = closedSet s"
  by (induction nbs arbitrary: s) simp_all

text \<open>No run of the loop changes the closed set.\<close>

lemma astar_loop_closedSet:
  assumes run: "astar_loop inf_int graph start goal ds step mf s = Some r"
  shows "closedSet (snd r) = closedSet s"
proof (rule astar_loop.raw_induct
    [where P = "\<lambda>inf_int graph start goal ds step mf s r. closedSet (snd r) = closedSet s",
     OF _ run])
  fix loop :: "int \<Rightarrow> Map \<Rightarrow> Node \<Rightarrow> Node \<Rightarrow> string \<Rightarrow> int \<Rightarrow> int \<Rightarrow> search \<Rightarrow> (bool \<times> search) option"
  fix inf_int graph start goal ds step mf s r
  assume IH: "\<And>inf_int graph start goal ds step mf s r.
      loop inf_int graph start goal ds step mf s = Some r \<Longrightarrow> closedSet (snd r) = closedSet s"
  assume body: "(if empty_queue (openSet s) then Some (False, s)
    else case get_queue (openSet s) of
         (current, rest) \<Rightarrow>
           if current = goal then Some (True, s\<lparr>openSet := rest\<rparr>)
           else loop inf_int graph start goal ds step mf
                 (fold (relax inf_int graph start goal ds mf current)
                   (neighbors graph current step)
                   (s\<lparr>openSet := rest, expanded := expanded s @ [current]\<rparr>))) =
   Some r"
  obtain current rest where g: "get_queue (openSet s) = (current, rest)"
    by (cases "get_queue (openSet s)")
  show "closedSet (snd r) = closedSet s"
  proof (cases "empty_queue (openSet s) \<or> current = goal")
    case True
    with body g show ?thesis by (auto split: if_splits)
  next
    case False
    with body g have "loop inf_int graph start goal ds step mf
                 (fold (relax inf_int graph start goal ds mf current)
                   (neighbors graph current step)
                   (s\<lparr>openSet := rest, expanded := expanded s @ [current]\<rparr>)) = Some r"
      by simp
    from IH[OF this] show ?thesis by simp
  qed
qed

lemma relax_goal_queued:
  "goal_queued g s \<Longrightarrow> goal_queued g (relax inf_int graph start goal ds mf current neighbor s)"
  by (auto simp: goal_queued_def relax_def index_gscore_def put_queue_def Let_def
      split: option.splits if_splits)

lemma fold_relax_goal_queued:
  "goal_queued g s \<Longrightarrow>
     goal_queued g (fold (relax inf_int graph start goal ds mf current) nbs s)"
  by (induction nbs arbitrary: s) (simp_all add: relax_goal_queued)

lemma astar_loop_exhausted:
  assumes run: "astar_loop inf_int graph start goal ds step mf s = Some r"
    and q: "goal_queued goal s"
  shows "\<not> fst r \<longrightarrow> parents (snd r) goal = None \<and> openSet (snd r) = []"
proof -
  have "goal_queued goal s \<longrightarrow> \<not> fst r \<longrightarrow> parents (snd r) goal = None \<and> openSet (snd r) = []"
  proof (rule astar_loop.raw_induct
      [where P = "\<lambda>inf_int graph start goal ds step mf s r.
         goal_queued goal s \<longrightarrow> \<not> fst r \<longrightarrow> parents (snd r) goal = None \<and> openSet (snd r) = []",
       OF _ run])
    fix loop :: "int \<Rightarrow> Map \<Rightarrow> Node \<Rightarrow> Node \<Rightarrow> string \<Rightarrow> int \<Rightarrow> int \<Rightarrow> search \<Rightarrow> (bool \<times> search) option"
    fix inf_int graph start goal ds step mf s r
    assume IH: "\<And>inf_int graph start goal ds step mf s r.
        loop inf_int graph start goal ds step mf s = Some r \<Longrightarrow>
        goal_queued goal s \<longrightarrow> \<not> fst r \<longrightarrow> parents (snd r) goal = None \<and> openSet (snd r) = []"
    assume body: "(if empty_queue (openSet s) then Some (False, s)
      else case get_queue (openSet s) of
           (current, rest) \<Rightarrow>
             if current = goal then Some (True, s\<lparr>openSet := rest\<rparr>)
             else loop inf_int graph start goal ds step mf
                   (fold (relax inf_int graph start goal ds mf current)
                     (neighbors graph current step)
                     (s\<lparr>openSet := rest, expanded := expanded s @ [current]\<rparr>))) =
     Some r"
    show "goal_queued goal s \<longrightarrow> \<not> fst r \<longrightarrow> parents (snd r) goal = None \<and> openSet (snd r) = []"
    proof (intro impI)
      assume q: "goal_queued goal s" and nf: "\<not> fst r"
      show "parents (snd r) goal = None \<and> openSet (snd r) = []"
      proof (cases "openSet s = []")
        case True
        with body have "r = (False, s)" by (simp add: empty_queue_def)
        moreover from q True have "parents s goal = None"
          by (cases "parents s goal") (simp_all add: goal_queued_def)
        ultimately show ?thesis using True by simp
      next
        case False
        obtain current rest where g: "get_queue (openSet s) = (current, rest)"
          by (cases "get_queue (openSet s)")
        note gp = get_queue_props[OF False g]
        show ?thesis
        proof (cases "current = goal")
          case True
          with body False g have "r = (True, s\<lparr>openSet := rest\<rparr>)"
            by (simp add: empty_queue_def)
          with nf show ?thesis by simp
        next
          case ng: False
          let ?s1 = "s\<lparr>openSet := rest, expanded := expanded s @ [current]\<rparr>"
          let ?s2 = "fold (relax inf_int graph start goal ds mf current)
                     (neighbors graph current step) ?s1"
          from body False g ng
          have l: "loop inf_int graph start goal ds step mf ?s2 = Some r"
            by (simp add: empty_queue_def)
          have "goal_queued goal ?s1"
            unfolding goal_queued_def
          proof
            assume "parents ?s1 goal \<noteq> None"
            with q obtain e where e: "e \<in> set (openSet s)" "snd e = goal"
              by (auto simp: goal_queued_def)
            with ng gp(2) have "e \<noteq> top (openSet s)" by auto
            with e(1) have "e \<in> set rest" unfolding gp(3) by simp
            with e(2) show "goal \<in> snd ` set (openSet ?s1)" by force
          qed
          then have "goal_queued goal ?s2" by (rule fold_relax_goal_queued)
          with IH[OF l] nf show ?thesis by blast
        qed
      qed
    qed
  qed
  with q show ?thesis by blast
qed

text \<open>
  Claim C3, amended. Whenever the open queue becomes empty before the goal is popped,
  \<open>astar_search\<close> returns to its caller as after any other run, with no error; the
  queue is empty and the parents map has no entry for the goal (when the map that
  the caller passed in had none).
\<close>

theorem exhausted_queue_returns_normally:
  assumes "astar_search inf_int graph start goal parents0 dataset_name step mfactor
             = Some (False, s)"
    and "parents0 goal = None"
  shows "openSet s = [] \<and> parents s goal = None"
proof -
  have "goal_queued goal
     \<lparr>gscore = [start \<mapsto> 0], closedSet = {}, openSet = put_queue [] start 0,
      parents = parents0, expanded = []\<rparr>"
    using assms(2) by (simp add: goal_queued_def)
  from astar_loop_exhausted[OF assms(1)[unfolded astar_search_def] this]
  show ?thesis by simp
qed

section \<open>Two runs of the search\<close>

lemmas run_cost = compute_cost_def V_def N_def M_def D_def is_wall_def closest_vertical_obstacle_def
  at_uchar_def c_str_def

lemmas run_queue = empty_queue_def put_queue_def get_queue_def element_less_def

lemmas run_neighbors = neighbors_def directions_def in_bounds_def

lemmas run_relax = relax_def index_gscore_def

lemmas run_all = Let_def run_queue run_relax

lemma astar_loop_empty:
  "openSet s = [] \<Longrightarrow>
     astar_loop inf_int graph start goal dataset_name step mfactor s = Some (False, s)"
  by (subst astar_loop.simps) (simp add: empty_queue_def)

lemma astar_loop_goal:
  "openSet s \<noteq> [] \<Longrightarrow> get_queue (openSet s) = (goal, rest) \<Longrightarrow>
     astar_loop inf_int graph start goal dataset_name step mfactor s
       = Some (True, s\<lparr>openSet := rest\<rparr>)"
  by (subst astar_loop.simps) (simp add: empty_queue_def)

lemma astar_loop_expand:
  "openSet s \<noteq> [] \<Longrightarrow> get_queue (openSet s) = (current, rest) \<Longrightarrow> current \<noteq> goal \<Longrightarrow>
     astar_loop inf_int graph start goal dataset_name step mfactor s
       = astar_loop inf_int graph start goal dataset_name step mfactor
           (fold (relax inf_int graph start goal dataset_name mfactor current)
              (neighbors graph current step)
              (s\<lparr>openSet := rest, expanded := expanded s @ [current]\<rparr>))"
  by (subst astar_loop.simps) (simp add: empty_queue_def)

subsection \<open>The row of ink: the goal cannot be reached with step 2\<close>

lemma ink_row_neighbors:
  "neighbors ink_row (0, 0) 2 = [(0, 2)]"
  "neighbors ink_row (0, 2) 2 = [(0, 0)]"
  by (simp_all add: run_neighbors ink_row_def)

lemma ink_row_cost: "compute_cost inf_int ink_row (0, c) (0, c') (0, 0) ''MLS'' = 190"
  by (simp add: run_cost ink_row_def)

lemma ink_row_heuristic: "heuristic (0, 2) (0, 3) 1 = 1"
  by (simp add: heuristic_def)

lemma ink_row_run:
  "astar_search inf_int ink_row (0, 0) (0, 3) Map.empty ''MLS'' 2 1 = Some (False, ink_row_final)"
proof -
  let ?loop = "astar_loop inf_int ink_row (0, 0) (0, 3) ''MLS'' 2 1"
  let ?s1 = "\<lparr>gscore = [(0, 0) \<mapsto> 0, (0, 2) \<mapsto> 190], closedSet = {},
              openSet = [(191, (0, 2))], parents = [(0, 2) \<mapsto> (0, 0)],
              expanded = [(0, 0)]\<rparr>"
  have "astar_search inf_int ink_row (0, 0) (0, 3) Map.empty ''MLS'' 2 1 = ?loop ?s1"
    unfolding astar_search_def
    by (subst astar_loop_expand[where current = "(0, 0)" and rest = "[]"])
       (simp_all add: run_all ink_row_neighbors ink_row_cost ink_row_heuristic)
  also have "\<dots> = ?loop ink_row_final"
    unfolding ink_row_final_def
    by (subst astar_loop_expand[where current = "(0, 2)" and rest = "[]"])
       (simp_all add: run_all ink_row_neighbors ink_row_cost)
  also have "\<dots> = Some (False, ink_row_final)"
    by (rule astar_loop_empty) (simp add: ink_row_final_def)
  finally show ?thesis .
qed

text \<open>
  Counterexample to claim C3 as stated (an exhausted queue makes the search fail with
  a NoPathFound error, and no partial path is returned). On the row of ink, from
  \<open>(0, 0)\<close> to \<open>(0, 3)\<close> with step 2, the queue runs empty after two nodes; the
  search returns its tables, with the entry of \<open>(0, 2)\<close> in the parents map, and
  \<open>reconstruct_path\<close> on that map returns the two-node list \<open>[(0, 0), (0, 3)]\<close>.
\<close>

theorem exhausted_queue_no_error:
  "astar_search 2147483647 ink_row (0, 0) (0, 3) Map.empty ''MLS'' 2 1
     = Some (False, ink_row_final)
   \<and> parents ink_row_final (0, 2) = Some (0, 0)
   \<and> reconstruct_path (0, 0) (0, 3) (parents ink_row_final) = Some [(0, 0), (0, 3)]"
proof -
  have "reconstruct_path (0, 0) (0, 3) [(0, 2) \<mapsto> (0, 0)] = Some [(0, 0), (0, 3)]"
    unfolding reconstruct_path_def
    by (subst reconstruct_loop.simps, simp add: index_parents_def)+
  with ink_row_run[of 2147483647] show ?thesis
    by (simp add: ink_row_final_def)
qed

text \<open>Witness for the amended C3: the same run.\<close>

theorem exhausted_queue_returns_normally_witness:
  "astar_search 2147483647 ink_row (0, 0) (0, 3) Map.empty ''MLS'' 2 1
     = Some (False, ink_row_final)
   \<and> (Map.empty :: Node \<rightharpoonup> Node) (0, 3) = None
   \<and> openSet ink_row_final = [] \<and> parents ink_row_final (0, 3) = None"
proof -
  have e: "(Map.empty :: Node \<rightharpoonup> Node) (0, 3) = None" by simp
  from exhausted_queue_returns_normally[OF ink_row_run[of 2147483647] e]
    ink_row_run[of 2147483647]
  show ?thesis by simp
qed

subsection \<open>The small page: a node is expanded twice\<close>

lemma sqrt2_bounds: "7 / 5 < sqrt 2" "sqrt 2 < 3 / 2"
proof -
  have "(7 / 5 :: real) < sqrt 2"
    by (rule real_less_rsqrt; simp add: power2_eq_square)
  then show "7 / 5 < sqrt 2" .
  have "sqrt 2 < (3 / 2 :: real)"
    by (rule real_less_lsqrt; simp add: power2_eq_square)
  then show "sqrt 2 < 3 / 2" .
qed

lemma sp_neighbors:
  "neighbors small_page (0, 0) 1 = [(0, 1), (1, 0), (1, 1)]"
  "neighbors small_page (1, 1) 1 = [(0, 0), (0, 1), (0, 2), (1, 0), (1, 2)]"
  "neighbors small_page (0, 1) 1 = [(0, 0), (0, 2), (1, 0), (1, 1), (1, 2)]"
  "neighbors small_page (1, 0) 1 = [(0, 0), (0, 1), (1, 1)]"
  "neighbors small_page (0, 2) 1 = [(0, 1), (1, 1), (1, 2)]"
  by (simp_all add: run_neighbors small_page_def)

lemma sp_heuristic:
  "heuristic (0, 1) (1, 2) 20 = 20 * sqrt 2"
  "heuristic (1, 0) (1, 2) 20 = 40"
  "heuristic (1, 1) (1, 2) 20 = 20"
  "heuristic (0, 2) (1, 2) 20 = 20"
  "heuristic (1, 2) (1, 2) 20 = 0"
proof -
  show "heuristic (0, 1) (1, 2) 20 = 20 * sqrt 2"
    "heuristic (1, 0) (1, 2) 20 = 40"
    "heuristic (1, 1) (1, 2) 20 = 20"
    "heuristic (0, 2) (1, 2) 20 = 20"
    "heuristic (1, 2) (1, 2) 20 = 0"
    by (simp_all add: heuristic_def)
qed

lemma sp_cost:
  "compute_cost i small_page (0, 0) (0, 1) (0, 0) ''MLS'' = 190"
  "compute_cost i small_page (0, 0) (1, 0) (0, 0) ''MLS'' = 385 / 2"
  "compute_cost i small_page (0, 0) (1, 1) (0, 0) ''MLS'' = 393 / 2"
  "compute_cost i small_page (1, 1) (0, 0) (0, 0) ''MLS'' = 79"
  "compute_cost i small_page (1, 1) (0, 1) (0, 0) ''MLS'' = 190"
  "compute_cost i small_page (1, 1) (0, 2) (0, 0) ''MLS'' = 79"
  "compute_cost i small_page (1, 1) (1, 0) (0, 0) ''MLS'' = 385 / 2"
  "compute_cost i small_page (1, 1) (1, 2) (0, 0) ''MLS'' = 385 / 2"
  "compute_cost i small_page (0, 1) (0, 0) (0, 0) ''MLS'' = 75"
  "compute_cost i small_page (0, 1) (0, 2) (0, 0) ''MLS'' = 75"
  "compute_cost i small_page (0, 1) (1, 0) (0, 0) ''MLS'' = 393 / 2"
  "compute_cost i small_page (0, 1) (1, 1) (0, 0) ''MLS'' = 385 / 2"
  "compute_cost i small_page (0, 1) (1, 2) (0, 0) ''MLS'' = 393 / 2"
  "compute_cost i small_page (1, 0) (0, 0) (0, 0) ''MLS'' = 75"
  "compute_cost i small_page (1, 0) (0, 1) (0, 0) ''MLS'' = 194"
  "compute_cost i small_page (1, 0) (1, 1) (0, 0) ''MLS'' = 385 / 2"
  "compute_cost i small_page (0, 2) (0, 1) (0, 0) ''MLS'' = 190"
  "compute_cost i small_page (0, 2) (1, 1) (0, 0) ''MLS'' = 393 / 2"
  "compute_cost i small_page (0, 2) (1, 2) (0, 0) ''MLS'' = 385 / 2"
  by (simp_all add: run_cost small_page_def)

lemmas sp_facts = run_all sp_neighbors sp_heuristic sp_cost

lemma small_page_run:
  "astar_search inf_int small_page (0, 0) (1, 2) Map.empty ''MLS'' 1 20
     = Some (True, small_page_final)"
  unfolding astar_search_def small_page_final_def
  using sqrt2_bounds
  apply (subst astar_loop_expand[where current = "(0, 0)" and rest = "[]"])
     apply (simp_all add: sp_facts)[3]
  apply (simp add: sp_facts)
  apply (subst astar_loop_expand[where current = "(1, 1)"])
     apply (simp_all add: sp_facts)[3]
  apply (simp add: sp_facts)
  apply (subst astar_loop_expand[where current = "(0, 1)"])
     apply (simp_all add: sp_facts)[3]
  apply (simp add: sp_facts)
  apply (subst astar_loop_expand[where current = "(1, 0)"])
     apply (simp_all add: sp_facts)[3]
  apply (simp add: sp_facts)
  apply (subst astar_loop_expand[where current = "(0, 2)"])
     apply (simp_all add: sp_facts)[3]
  apply (simp add: sp_facts)
  apply (subst astar_loop_expand[where current = "(0, 2)"])
     apply (simp_all add: sp_facts)[3]
  apply (simp add: sp_facts)
  apply (subst astar_loop_goal)
    apply (simp_all add: sp_facts)
  done

text \<open>
  Claim C1 (a popped node is skipped when it is in the closed set and inserted
  otherwise, so that no node is expanded twice in a run). The loop never inserts into
  \<open>closedSet\<close> and never tests the popped node. On the small page, from \<open>(0, 0)\<close> to
  \<open>(1, 2)\<close> with step 1 and factor 20, the node \<open>(0, 2)\<close> is queued from \<open>(1, 1)\<close>
  and again, at a lower cost, from \<open>(0, 1)\<close>; both entries are popped before the goal,
  and the node is expanded twice. The closed set is empty at the end, as it is after
  every run (\<open>astar_loop_closedSet\<close>).
\<close>

theorem popped_node_expanded_twice:
  "astar_search 2147483647 small_page (0, 0) (1, 2) Map.empty ''MLS'' 1 20
     = Some (True, small_page_final)
   \<and> expanded small_page_final = [(0, 0), (1, 1), (0, 1), (1, 0), (0, 2), (0, 2)]
   \<and> \<not> distinct (expanded small_page_final)
   \<and> closedSet small_page_final = {}"
  using small_page_run[of 2147483647] by (simp add: small_page_final_def)

text \<open>
  Witness for C6: the run on the small page pops the goal, and the path is
  \<open>(0, 0), (0, 1), (1, 2)\<close>.
\<close>

theorem successful_run_path_witness:
  "astar_search 2147483647 small_page (0, 0) (1, 2) Map.empty ''MLS'' 1 20
     = Some (True, small_page_final)
   \<and> inf_usable 2147483647
   \<and> (\<exists>P. reconstruct_path (0, 0) (1, 2) (parents small_page_final) = Some P
          \<and> P \<noteq> [] \<and> hd P = (0, 0) \<and> last P = (1, 2)
          \<and> (\<forall>i. Suc i < length P \<longrightarrow> P ! Suc i \<in> set (neighbors small_page (P ! i) 1)))
   \<and> reconstruct_path (0, 0) (1, 2) (parents small_page_final) = Some [(0, 0), (0, 1), (1, 2)]"
proof -
  have ok: "inf_usable 2147483647" by (simp add: inf_usable_def)
  have p: "reconstruct_path (0, 0) (1, 2) (parents small_page_final) = Some [(0, 0), (0, 1), (1, 2)]"
    unfolding reconstruct_path_def small_page_final_def
    by (subst reconstruct_loop.simps, simp add: index_parents_def)+
  from successful_run_path[OF small_page_run[of 2147483647] ok] small_page_run[of 2147483647] ok p
  show ?thesis by blast
qed

text \<open>Witness for C10: the parents map of that run, followed from \<open>(1, 2)\<close>.\<close>

theorem reconstruct_path_terminates_witness:
  "(parent_of (parents small_page_final) ^^ 2) (1, 2) = (0, 0)
   \<and> (\<exists>d\<le>2. reconstruct_path (0, 0) (1, 2) (parents small_page_final)
                 = Some (rev (parent_chain (parents small_page_final) (1, 2) d))
            \<and> hd (rev (parent_chain (parents small_page_final) (1, 2) d)) = (0, 0)
            \<and> last (rev (parent_chain (parents small_page_final) (1, 2) d)) = (1, 2))"
proof -
  have r: "(parent_of (parents small_page_final) ^^ 2) (1, 2) = (0, 0)"
    by (simp add: numeral_2_eq_2 parent_of_alt small_page_final_def)
  from reconstruct_path_terminates[OF r] r show ?thesis by blast
qed

end
